theory Spec2Isabelle
  imports Complex_Main
begin

section \<open>Failures\<close>

text \<open>
  The library reports contract violations with \<^verbatim>\<open>assert\<close>; the argument of
  \<open>Assertion_failed\<close> is the line of the assertion in
  \<^verbatim>\<open>include/dspbb/Filtering/Interpolation.hpp\<close>. Reads and writes outside a buffer,
  an integer division by zero and a rational with denominator zero are not defined by
  the sources; the model stops with a failure of their own at each of them.

  In \<^verbatim>\<open>Decimate\<close> and \<^verbatim>\<open>Expand\<close> the sizes are \<^verbatim>\<open>size_t\<close> values, and the
  wrap-around of their sums and products is written out (\<open>size_t\<close> below). In
  \<^verbatim>\<open>Interpolate\<close> and \<^verbatim>\<open>Resample\<close> indices and sizes (\<^verbatim>\<open>size_t\<close>,
  \<^verbatim>\<open>ptrdiff_t\<close>, \<^verbatim>\<open>int64_t\<close>) are modelled by \<open>nat\<close> and \<open>int\<close>: that index
  arithmetic is carried out in two's complement, so it agrees with the integers as long
  as no magnitude reaches \<open>2^63\<close>, which the library leaves to the caller. Samples are
  elements of an arbitrary (semi)ring or field, that is, the accumulations are exact.
\<close>

datatype failure =
    Assertion_failed nat
  | Division_by_zero
  | Out_of_range
  | Zero_denominator

section \<open>Decimate and Expand\<close>

text \<open>
  Arithmetic on \<^verbatim>\<open>size_t\<close> is unsigned and 64 bits wide: a sum or a product is
  taken modulo \<open>2^64\<close>.
\<close>

definition size_t :: "nat \<Rightarrow> nat" where
  "size_t n = n mod 2 ^ 64"

text \<open>
  The range-for loop of \<^verbatim>\<open>Decimate\<close> (lines 26 to 30): every element of the output is
  overwritten with \<^verbatim>\<open>input[readIdx]\<close>, and \<^verbatim>\<open>readIdx\<close>, a \<^verbatim>\<open>size_t\<close>, advances
  by \<^verbatim>\<open>rate\<close>.
\<close>

fun Decimate_loop :: "'a list \<Rightarrow> 'a list \<Rightarrow> nat \<Rightarrow> nat \<Rightarrow> failure + 'a list" where
  "Decimate_loop [] input rate readIdx = Inr []"
| "Decimate_loop (o1 # os) input rate readIdx =
     (if readIdx < length input
      then (case Decimate_loop os input rate (size_t (readIdx + rate)) of
              Inl e \<Rightarrow> Inl e
            | Inr os' \<Rightarrow> Inr (input ! readIdx # os'))
      else Inl Out_of_range)"

text \<open>
  \<^verbatim>\<open>Decimate\<close> (lines 22 to 31). The sum \<^verbatim>\<open>input.Size() + rate - 1\<close> of line 25
  is a \<^verbatim>\<open>size_t\<close>; with a rate above zero it is \<open>length input + rate - 1\<close>
  modulo \<open>2^64\<close>.
\<close>

definition Decimate :: "'a list \<Rightarrow> 'a list \<Rightarrow> nat \<Rightarrow> failure + 'a list" where
  "Decimate output input rate =
     (if rate = 0 then Inl Division_by_zero
      else if length output \<noteq> size_t (length input + rate - 1) div rate
      then Inl (Assertion_failed 25)
      else Decimate_loop output input rate 0)"

text \<open>
  The overload that allocates its output (lines 34 to 40); line 37 computes the size as
  line 25 does.
\<close>

definition Decimate_new :: "'a::zero list \<Rightarrow> nat \<Rightarrow> failure + 'a list" where
  "Decimate_new input rate =
     (if rate = 0 then Inl Division_by_zero
      else Decimate (replicate (size_t (length input + rate - 1) div rate) 0) input rate)"

text \<open>
  The inner loop of \<^verbatim>\<open>Expand\<close> (lines 58 to 61), \<^verbatim>\<open>for (i = rate; i > 1; --i)\<close>,
  writes a zero through \<^verbatim>\<open>writeIt\<close> and advances it.
\<close>

fun Expand_zeros :: "'a::zero list \<Rightarrow> nat \<Rightarrow> nat \<Rightarrow> failure + ('a list \<times> nat)" where
  "Expand_zeros output writeIt 0 = Inr (output, writeIt)"
| "Expand_zeros output writeIt (Suc 0) = Inr (output, writeIt)"
| "Expand_zeros output writeIt (Suc (Suc i)) =
     (if writeIt < length output
      then Expand_zeros (output[writeIt := 0]) (Suc writeIt) (Suc i)
      else Inl Out_of_range)"

fun Expand_loop :: "'a::zero list \<Rightarrow> nat \<Rightarrow> 'a list \<Rightarrow> nat \<Rightarrow> failure + 'a list" where
  "Expand_loop output writeIt [] rate = Inr output"
| "Expand_loop output writeIt (x # xs) rate =
     (if writeIt < length output
      then (case Expand_zeros (output[writeIt := x]) (Suc writeIt) rate of
              Inl e \<Rightarrow> Inl e
            | Inr (output', writeIt') \<Rightarrow> Expand_loop output' writeIt' xs rate)
      else Inl Out_of_range)"

definition Expand :: "'a::zero list \<Rightarrow> 'a list \<Rightarrow> nat \<Rightarrow> failure + 'a list" where
  "Expand output input rate =
     (if length output \<noteq> size_t (length input * rate) then Inl (Assertion_failed 53)
      else Expand_loop output 0 input rate)"

text \<open>
  The overload that allocates its output (lines 66 to 72); the product of line 69 is a
  \<^verbatim>\<open>size_t\<close>, as is the one of line 53.
\<close>

definition Expand_new :: "'a::zero list \<Rightarrow> nat \<Rightarrow> failure + 'a list" where
  "Expand_new input rate = Expand (replicate (size_t (length input * rate)) 0) input rate"


text \<open>
  The zero-stuffed signal in the words of the specification: \<open>rate - 1\<close> zeros after
  each sample. It is the reference the loops of \<^verbatim>\<open>Expand\<close> are compared with.
\<close>

definition zero_stuffed :: "nat \<Rightarrow> 'a::zero list \<Rightarrow> 'a list" where
  "zero_stuffed rate xs = concat (map (\<lambda>x. x # replicate (rate - 1) 0) xs)"

section \<open>Collaborators outside the sources\<close>

subsection \<open>Exact rationals\<close>

text \<open>
  Modelled from the spec: \<^verbatim>\<open>Math/Rational.hpp\<close> is not among the sources. A
  rational is a pair of a numerator and a denominator greater than zero, kept in reduced
  form, with the sign carried by the numerator; its arithmetic is exact. It is modelled
  by the type \<open>rat\<close>; \<open>Numerator\<close> and \<open>Denominator\<close> read the reduced pair.
\<close>

definition Numerator :: "rat \<Rightarrow> int" where
  "Numerator x = fst (quotient_of x)"

text \<open>
  Modelled from the spec: the denominator of the reduced pair
  (\<^verbatim>\<open>Rational::Denominator\<close>, not among the sources).
\<close>

definition Denominator :: "rat \<Rightarrow> int" where
  "Denominator x = snd (quotient_of x)"

text \<open>
  Modelled from the spec: the constructor \<^verbatim>\<open>Rational{num, den}\<close>, not among the
  sources. The specification gives the invariant that the denominator is never zero and
  says nothing about a pair that breaks it, so the model stops there.
\<close>

definition Rational :: "int \<Rightarrow> int \<Rightarrow> failure + rat" where
  "Rational num den = (if den = 0 then Inl Zero_denominator else Inr (Fract num den))"

text \<open>
  Modelled from the spec: the quotient of two rationals (\<^verbatim>\<open>operator/\<close> of
  \<^verbatim>\<open>Rational\<close>, not among the sources). A quotient by zero would have the
  denominator zero, so the model stops there.
\<close>

definition divide_Rational :: "rat \<Rightarrow> rat \<Rightarrow> failure + rat" where
  "divide_Rational x y = (if y = 0 then Inl Zero_denominator else Inr (x / y))"

text \<open>
  Modelled from the spec: \<^verbatim>\<open>floor\<close> of a rational (not among the sources), the
  greatest integer below or equal to the value.
\<close>

definition floor_Rational :: "rat \<Rightarrow> int" where
  "floor_Rational x = \<lfloor>x\<rfloor>"

text \<open>
  Modelled from the spec: \<^verbatim>\<open>frac\<close> of a rational (not among the sources), the
  value minus its floor.
\<close>

definition frac_Rational :: "rat \<Rightarrow> rat" where
  "frac_Rational x = x - of_int (floor_Rational x)"

subsection \<open>Signal views, dot product, intervals, convolution length\<close>

text \<open>
  Modelled from the spec: \<^verbatim>\<open>SubSignal(first, count)\<close> of a signal view
  (\<^verbatim>\<open>Primitives/SignalView.hpp\<close> is not among the sources), the window of
  \<open>count\<close> elements that starts at \<open>first\<close>. A window that leaves the buffer is a
  failure of the model.
\<close>

definition SubSignal :: "'a list \<Rightarrow> int \<Rightarrow> int \<Rightarrow> failure + 'a list" where
  "SubSignal xs first count =
     (if 0 \<le> first \<and> 0 \<le> count \<and> first + count \<le> int (length xs)
      then Inr (take (nat count) (drop (nat first) xs))
      else Inl Out_of_range)"

text \<open>
  Modelled from the spec: \<^verbatim>\<open>DotProduct\<close> (\<^verbatim>\<open>Math/DotProduct.hpp\<close> is not
  among the sources), the sum of the elementwise products of two views. Every call of
  the file passes two views of the same length.
\<close>

definition DotProduct :: "'a::semiring_0 list \<Rightarrow> 'a list \<Rightarrow> 'a" where
  "DotProduct xs ys = sum_list (map (\<lambda>(x, y). x * y) (zip xs ys))"





text \<open>
  Modelled from the spec: \<^verbatim>\<open>ConvolutionLength(n, m, CONV_FULL)\<close> (the convolution
  header is not among the sources), the length \<open>n + m - 1\<close> of a full convolution.
\<close>

definition ConvolutionLength :: "int \<Rightarrow> int \<Rightarrow> int" where
  "ConvolutionLength n m = n + m - 1"

subsection \<open>Polyphase view\<close>

text \<open>
  Modelled from the spec: \<^verbatim>\<open>PolyphaseView\<close> (\<^verbatim>\<open>Filtering/Polyphase.hpp\<close> is
  not among the sources), the decomposition of a filter of length \<open>F\<close> into \<open>P\<close>
  phases. The view is given by the taps of the original filter and the phase count.
\<close>

record 'a PolyphaseView =
  taps :: "'a list"
  numFilters :: nat

text \<open>Modelled from the spec: \<^verbatim>\<open>FilterCount\<close> is \<open>P\<close> (header not among the sources).\<close>

definition FilterCount :: "'a PolyphaseView \<Rightarrow> nat" where
  "FilterCount pv = numFilters pv"

text \<open>Modelled from the spec: \<^verbatim>\<open>OriginalSize\<close> is \<open>F\<close> (header not among the sources).\<close>

definition OriginalSize :: "'a PolyphaseView \<Rightarrow> nat" where
  "OriginalSize pv = length (taps pv)"

text \<open>
  Modelled from the spec: \<^verbatim>\<open>PhaseSize\<close> is \<open>ceil(F / P)\<close> (header not among the
  sources).
\<close>

definition PhaseSize :: "'a PolyphaseView \<Rightarrow> nat" where
  "PhaseSize pv = (OriginalSize pv + FilterCount pv - 1) div FilterCount pv"

text \<open>
  Modelled from the spec: \<^verbatim>\<open>polyphase[i]\<close> (header not among the sources). Phase
  \<open>i\<close> holds every \<open>P\<close>th tap of the original filter, starting at tap \<open>i\<close>, in
  reversed order. Every call of the file passes an index below \<open>P\<close>.
\<close>

definition phase :: "'a PolyphaseView \<Rightarrow> nat \<Rightarrow> 'a list" where
  "phase pv i =
     rev (map (\<lambda>k. taps pv ! (i + k * FilterCount pv))
            [0..<(OriginalSize pv - i + FilterCount pv - 1) div FilterCount pv])"

section \<open>Interpolate\<close>








section \<open>Resample\<close>

text \<open>\<^verbatim>\<open>resample::ResamplingLength\<close> with \<^verbatim>\<open>CONV_FULL\<close> (lines 156 to 166).\<close>

definition ResamplingLength :: "nat \<Rightarrow> nat \<Rightarrow> nat \<Rightarrow> rat \<Rightarrow> failure + rat" where
  "ResamplingLength inputSize filterSize numPhases sampleRates =
     (let interpolatedSize = int numPhases * int inputSize;
          filteredInterpolatedSize = ConvolutionLength interpolatedSize (int filterSize)
      in case divide_Rational (of_int filteredInterpolatedSize) sampleRates of
           Inl e \<Rightarrow> Inl e
         | Inr q \<Rightarrow> divide_Rational q (of_int (int numPhases)))"

text \<open>\<^verbatim>\<open>resample::ChangeSampleRate\<close> (lines 184 to 188).\<close>

definition ChangeSampleRate :: "int \<Rightarrow> int \<Rightarrow> rat \<Rightarrow> failure + rat" where
  "ChangeSampleRate sourceRate targetRate sample =
     (case Rational targetRate sourceRate of
        Inl e \<Rightarrow> Inl e
      | Inr ratio \<Rightarrow> Inr (sample * ratio))"

text \<open>
  \<^verbatim>\<open>resample::PhaseSample\<close> (lines 190 to 194). The input index is a
  \<^verbatim>\<open>size_t\<close> that the callee converts back to \<^verbatim>\<open>ptrdiff_t\<close>; it is kept as
  the integer both stand for.
\<close>

record PhaseSample =
  inputIndex :: int
  phaseIndex :: nat
  weight :: nat

text \<open>\<^verbatim>\<open>resample::InputIndex2Sample\<close> (lines 196 to 213).\<close>

definition InputIndex2Sample :: "rat \<Rightarrow> nat \<Rightarrow> failure + (PhaseSample \<times> PhaseSample)" where
  "InputIndex2Sample inputIdx numPhases =
     (if numPhases = 0 then Inl Division_by_zero
      else
       (let indexFrac = frac_Rational inputIdx;
            firstPhase = nat (floor_Rational (indexFrac * of_int (int numPhases)));
            secondPhase = (firstPhase + 1) mod numPhases;
            t = frac_Rational (indexFrac * of_int (int numPhases));
            secondWeight = nat (Numerator t);
            firstWeight = nat (Denominator t - Numerator t);
            firstIndex = floor_Rational inputIdx;
            secondIndex = (if secondPhase = 0 then firstIndex + 1 else firstIndex)
        in Inr (\<lparr>inputIndex = firstIndex, phaseIndex = firstPhase, weight = firstWeight\<rparr>,
                \<lparr>inputIndex = secondIndex, phaseIndex = secondPhase, weight = secondWeight\<rparr>)))"

text \<open>\<^verbatim>\<open>resample::DotProductSample\<close> (lines 215 to 228).\<close>

definition DotProductSample :: "'a::semiring_0 list \<Rightarrow> 'a list \<Rightarrow> int \<Rightarrow> failure + 'a" where
  "DotProductSample input filt inputReverseFirst =
     (let desiredFirst = inputReverseFirst - int (length filt) + 1;
          desiredLast = inputReverseFirst + 1;
          possibleFirst = max 0 desiredFirst;
          possibleLast = min (int (length input)) desiredLast;
          count = possibleLast - possibleFirst
      in if \<not> count \<ge> 0 then Inl (Assertion_failed 222)
         else
          (let offset = possibleFirst - desiredFirst
           in case SubSignal input possibleFirst count of
                Inl e \<Rightarrow> Inl e
              | Inr inputView \<Rightarrow>
                 (case SubSignal filt offset count of
                    Inl e \<Rightarrow> Inl e
                  | Inr filterView \<Rightarrow> Inr (DotProduct inputView filterView))))"

text \<open>\<^verbatim>\<open>resample::ResamplingDelay\<close> (lines 236 to 240).\<close>

definition ResamplingDelay :: "nat \<Rightarrow> nat \<Rightarrow> rat \<Rightarrow> failure + rat" where
  "ResamplingDelay filterSize numPhases sampleRates =
     (case Rational (int filterSize - 1) (2 * int numPhases) of
        Inl e \<Rightarrow> Inl e
      | Inr d \<Rightarrow> divide_Rational d sampleRates)"

text \<open>\<^verbatim>\<open>resample::ContinuationParams\<close> (lines 242 to 245).\<close>

record ContinuationParams =
  firstInputSample :: nat
  startPoint :: rat

text \<open>\<^verbatim>\<open>resample::Continuation\<close> (lines 247 to 264).\<close>

definition Continuation :: "rat \<Rightarrow> nat \<Rightarrow> nat \<Rightarrow> rat \<Rightarrow> failure + ContinuationParams" where
  "Continuation nextOutputSample filterSize numPhases sampleRates =
     (case ChangeSampleRate (Denominator sampleRates) (Numerator sampleRates) nextOutputSample of
        Inl e \<Rightarrow> Inl e
      | Inr nextInputSample \<Rightarrow>
         (case Rational (int filterSize - 1) (int numPhases) of
            Inl e \<Rightarrow> Inl e
          | Inr convolutionOffset \<Rightarrow>
             (let firstInput = nextInputSample - convolutionOffset
              in if firstInput \<le> 0
                 then Inr \<lparr>firstInputSample = 0, startPoint = nextOutputSample\<rparr>
                 else
                  (let firstInputSampleWhole = nat (floor_Rational firstInput);
                       inputStartPoint = frac_Rational firstInput + convolutionOffset
                   in case ChangeSampleRate (Numerator sampleRates) (Denominator sampleRates)
                             inputStartPoint of
                        Inl e \<Rightarrow> Inl e
                      | Inr outputStartPoint \<Rightarrow>
                          Inr \<lparr>firstInputSample = firstInputSampleWhole,
                               startPoint = outputStartPoint\<rparr>))))"

text \<open>
  Lines 293 to 298 of \<^verbatim>\<open>Resample\<close>: the output sample that belongs to an exact
  position in the input.
\<close>

definition Resample_at :: "'a::field list \<Rightarrow> 'a PolyphaseView \<Rightarrow> rat \<Rightarrow> failure + 'a" where
  "Resample_at input polyphase inputIdx =
     (case InputIndex2Sample inputIdx (FilterCount polyphase) of
        Inl e \<Rightarrow> Inl e
      | Inr (firstSampleLoc, secondSampleLoc) \<Rightarrow>
         (case DotProductSample input (phase polyphase (phaseIndex firstSampleLoc))
                 (inputIndex firstSampleLoc) of
            Inl e \<Rightarrow> Inl e
          | Inr firstSampleVal \<Rightarrow>
             (case DotProductSample input (phase polyphase (phaseIndex secondSampleLoc))
                     (inputIndex secondSampleLoc) of
                Inl e \<Rightarrow> Inl e
              | Inr secondSampleVal \<Rightarrow>
                  Inr ((firstSampleVal * of_nat (weight firstSampleLoc)
                          + secondSampleVal * of_nat (weight secondSampleLoc))
                       / (of_nat (weight firstSampleLoc) + of_nat (weight secondSampleLoc))))))"

text \<open>The body of the loop of \<^verbatim>\<open>Resample\<close> (lines 292 to 298) at one output index.\<close>

definition Resample_body :: "'a::field list \<Rightarrow> 'a PolyphaseView \<Rightarrow> rat \<Rightarrow> rat \<Rightarrow> failure + 'a" where
  "Resample_body input polyphase sampleRates outputIndex =
     (case ChangeSampleRate (Denominator sampleRates) (Numerator sampleRates) outputIndex of
        Inl e \<Rightarrow> Inl e
      | Inr inputIdx \<Rightarrow> Resample_at input polyphase inputIdx)"

text \<open>
  The loop of line 291 over the elements of the output, each of which is overwritten;
  the result also carries the output index after the last sample.
\<close>

fun Resample_loop ::
  "'a::field list \<Rightarrow> 'a list \<Rightarrow> 'a PolyphaseView \<Rightarrow> rat \<Rightarrow> rat \<Rightarrow> failure + ('a list \<times> rat)" where
  "Resample_loop [] input polyphase sampleRates outputIndex = Inr ([], outputIndex)"
| "Resample_loop (o1 # os) input polyphase sampleRates outputIndex =
     (case Resample_body input polyphase sampleRates outputIndex of
        Inl e \<Rightarrow> Inl e
      | Inr v \<Rightarrow>
         (case Resample_loop os input polyphase sampleRates (outputIndex + 1) of
            Inl e \<Rightarrow> Inl e
          | Inr (vs, outputIndex') \<Rightarrow> Inr (v # vs, outputIndex')))"

text \<open>\<^verbatim>\<open>Resample\<close> (lines 278 to 302).\<close>

definition Resample ::
  "'a::field list \<Rightarrow> 'a list \<Rightarrow> 'a PolyphaseView \<Rightarrow> rat \<Rightarrow> rat
     \<Rightarrow> failure + ('a list \<times> ContinuationParams)" where
  "Resample output input polyphase sampleRates start =
     (if \<not> sampleRates \<ge> 0 then Inl (Assertion_failed 283)
      else if \<not> start \<ge> 0 then Inl (Assertion_failed 284)
      else if \<not> FilterCount polyphase > 0 then Inl (Assertion_failed 285)
      else
       (case ResamplingLength (length input) (OriginalSize polyphase) (FilterCount polyphase)
               sampleRates of
          Inl e \<Rightarrow> Inl e
        | Inr maxLength \<Rightarrow>
           (if \<not> start + of_int (int (length output)) < maxLength then Inl (Assertion_failed 288)
            else
             (case Resample_loop output input polyphase sampleRates start of
                Inl e \<Rightarrow> Inl e
              | Inr (output', outputIndex) \<Rightarrow>
                 (case Continuation outputIndex (OriginalSize polyphase) (FilterCount polyphase)
                         sampleRates of
                    Inl e \<Rightarrow> Inl e
                  | Inr c \<Rightarrow> Inr (output', c))))))"

text \<open>The overload that allocates its output, filled with zeros (lines 308 to 319).\<close>

definition Resample_new ::
  "'a::field list \<Rightarrow> 'a PolyphaseView \<Rightarrow> rat \<Rightarrow> rat \<Rightarrow> nat \<Rightarrow> failure + 'a list" where
  "Resample_new input polyphase sampleRates start orLength =
     (case Resample (replicate orLength 0) input polyphase sampleRates start of
        Inl e \<Rightarrow> Inl e
      | Inr (output', c) \<Rightarrow> Inr output')"

section \<open>Decimate and Expand: properties\<close>

lemma size_t_small: "n < 2 ^ 64 \<Longrightarrow> size_t n = n"
  by (simp add: size_t_def)

lemma Decimate_loop_reads:
  "length input \<le> 2 ^ 64 \<Longrightarrow> (\<forall>i<length os. readIdx + i * rate < length input) \<Longrightarrow>
   Decimate_loop os input rate readIdx =
     Inr (map (\<lambda>i. input ! (readIdx + i * rate)) [0..<length os])"
proof (induction os arbitrary: readIdx)
  case Nil
  then show ?case by simp
next
  case (Cons a os)
  have here: "readIdx < length input" using Cons.prems(2) by force
  show ?case
  proof (cases os)
    case Nil
    then show ?thesis using here by simp
  next
    case (Cons b bs)
    then have "Suc 0 < length (a # os)" by simp
    then have "readIdx + Suc 0 * rate < length input" using Cons.prems(2) by blast
    then have "readIdx + rate < 2 ^ 64" using Cons.prems(1) by simp
    then have next_idx: "size_t (readIdx + rate) = readIdx + rate" by (rule size_t_small)
    have rest: "\<forall>i<length os. (readIdx + rate) + i * rate < length input"
    proof (intro allI impI)
      fix i assume "i < length os"
      then have "Suc i < length (a # os)" by simp
      then have "readIdx + Suc i * rate < length input" using Cons.prems(2) by blast
      then show "(readIdx + rate) + i * rate < length input" by (simp add: ac_simps)
    qed
    have shift: "map (\<lambda>i. input ! (readIdx + i * rate)) [0..<Suc (length os)] =
          input ! readIdx # map (\<lambda>i. input ! ((readIdx + rate) + i * rate)) [0..<length os]"
      by (simp add: upt_conv_Cons map_Suc_upt [symmetric] del: upt_Suc add: ac_simps)
    show ?thesis
      using here Cons.IH [OF Cons.prems(1) rest] shift by (simp add: next_idx)
  qed
qed

lemma Expand_zeros_writes:
  "writeIt + (i - 1) \<le> length out \<Longrightarrow>
   Expand_zeros out writeIt i =
     Inr (take writeIt out @ replicate (i - 1) 0 @ drop (writeIt + (i - 1)) out, writeIt + (i - 1))"
proof (induction out writeIt i rule: Expand_zeros.induct)
  case (1 out writeIt)
  then show ?case by simp
next
  case (2 out writeIt)
  then show ?case by simp
next
  case (3 out writeIt i)
  have lt: "writeIt < length out" using 3 by simp
  have "take (Suc writeIt) (out[writeIt := 0]) = take writeIt out @ [0]"
    using lt by (simp add: take_Suc_conv_app_nth)
  then show ?case using 3 lt
    by (simp add: replicate_app_Cons_same)
qed

lemma Expand_loop_writes:
  "0 < rate \<Longrightarrow> writeIt + length xs * rate \<le> length out \<Longrightarrow>
   Expand_loop out writeIt xs rate =
     Inr (take writeIt out @ zero_stuffed rate xs @ drop (writeIt + length xs * rate) out)"
proof (induction xs arbitrary: out writeIt)
  case Nil
  then show ?case by (simp add: zero_stuffed_def)
next
  case (Cons x xs)
  obtain r where r: "rate = Suc r" using Cons.prems(1) by (cases rate) auto
  have room: "writeIt + Suc r + length xs * rate \<le> length out"
    using Cons.prems(2) r by simp
  then have lt: "writeIt < length out" by simp
  let ?o1 = "out[writeIt := x]"
  have z: "Expand_zeros ?o1 (Suc writeIt) rate =
      Inr (take (Suc writeIt) ?o1 @ replicate r 0 @ drop (Suc writeIt + r) ?o1, Suc writeIt + r)"
    using Expand_zeros_writes [of "Suc writeIt" rate ?o1] room r by simp
  let ?o2 = "take (Suc writeIt) ?o1 @ replicate r 0 @ drop (Suc writeIt + r) ?o1"
  have len2: "length ?o2 = length out" using room by simp
  have t1: "take (Suc writeIt) ?o1 = take writeIt out @ [x]"
    using lt by (simp add: take_Suc_conv_app_nth)
  have ih: "Expand_loop ?o2 (Suc writeIt + r) xs rate =
     Inr (take (Suc writeIt + r) ?o2 @ zero_stuffed rate xs @ drop (Suc writeIt + r + length xs * rate) ?o2)"
    using Cons.IH [of "Suc writeIt + r" ?o2] Cons.prems(1) room len2 r by simp
  have t2: "take (Suc writeIt + r) ?o2 = take writeIt out @ x # replicate r 0"
    using lt room by (simp add: t1 min_def)
  have d2: "drop (Suc writeIt + r + length xs * rate) ?o2 = drop (writeIt + length (x # xs) * rate) out"
    using lt room r by (simp add: min_def ac_simps)
  have zs: "zero_stuffed rate (x # xs) = (x # replicate r 0) @ zero_stuffed rate xs"
    by (simp add: zero_stuffed_def r)
  show ?case using lt z ih t2 d2 zs by simp
qed

lemma length_zero_stuffed: "0 < rate \<Longrightarrow> length (zero_stuffed rate xs) = length xs * rate"
  by (induction xs) (simp_all add: zero_stuffed_def)

lemma nth_zero_stuffed:
  "0 < rate \<Longrightarrow> j < length xs * rate \<Longrightarrow>
   zero_stuffed rate xs ! j = (if rate dvd j then xs ! (j div rate) else 0)"
proof (induction xs arbitrary: j)
  case Nil
  then show ?case by simp
next
  case (Cons x xs)
  have zs: "zero_stuffed rate (x # xs) = (x # replicate (rate - 1) 0) @ zero_stuffed rate xs"
    by (simp add: zero_stuffed_def)
  show ?case
  proof (cases "j < rate")
    case True
    then have "zero_stuffed rate (x # xs) ! j = (x # replicate (rate - 1) 0) ! j"
      unfolding zs nth_append using Cons.prems(1) by simp
    also have "\<dots> = (if j = 0 then x else 0)" using True by (cases j) auto
    also have "\<dots> = (if rate dvd j then (x # xs) ! (j div rate) else 0)"
      using True by (auto simp: dvd_imp_le)
    finally show ?thesis .
  next
    case False
    then have ge: "rate \<le> j" by simp
    have lt: "j - rate < length xs * rate" using Cons.prems(2) ge by simp
    have "zero_stuffed rate (x # xs) ! j = zero_stuffed rate xs ! (j - rate)"
      unfolding zs nth_append using Cons.prems(1) ge by simp
    also have "\<dots> = (if rate dvd (j - rate) then xs ! ((j - rate) div rate) else 0)"
      using Cons.IH [OF Cons.prems(1) lt] .
    also have "\<dots> = (if rate dvd j then (x # xs) ! (j div rate) else 0)"
      using ge Cons.prems(1) by (simp add: le_div_geq dvd_minus_self)
    finally show ?thesis .
  qed
qed

lemma Expand_new_eq:
  "0 < rate \<Longrightarrow> length xs * rate < 2 ^ 64 \<Longrightarrow> Expand_new xs rate = Inr (zero_stuffed rate xs)"
  using Expand_loop_writes [of rate 0 xs "replicate (length xs * rate) 0"]
  by (simp add: Expand_new_def Expand_def size_t_small)

lemma ceiling_nat_div:
  "0 < r \<Longrightarrow> \<lceil>(of_nat n :: rat) / of_nat r\<rceil> = int ((n + r - 1) div r)"
proof (rule ceiling_unique)
  assume r: "0 < r"
  let ?q = "(n + r - 1) div r"
  have lo: "?q * r \<le> n + r - 1" by (rule div_times_less_eq_dividend)
  have hi: "n + r - 1 < r + ?q * r" using r by (rule dividend_less_div_times)
  have a: "?q * r < n + r" using lo r by arith
  have b: "n \<le> ?q * r" using hi r by arith
  have "(of_nat (?q * r) :: rat) < of_nat (n + r)" using a by (simp only: of_nat_less_iff)
  then have "(of_nat ?q - 1) * (of_nat r :: rat) < of_nat n" by (simp add: algebra_simps)
  then show "of_int (int ?q) - 1 < (of_nat n :: rat) / of_nat r"
    using r by (simp add: pos_less_divide_eq)
  have "(of_nat n :: rat) \<le> of_nat (?q * r)" using b by (simp only: of_nat_le_iff)
  then show "(of_nat n :: rat) / of_nat r \<le> of_int (int ?q)"
    using r by (simp add: pos_divide_le_eq)
qed

lemma Decimate_reads:
  assumes "0 < rate" and "length out = (length input + rate - 1) div rate"
    and "length input + rate - 1 < 2 ^ 64"
  shows "Decimate out input rate = Inr (map (\<lambda>i. input ! (i * rate)) [0..<length out])"
    and "\<forall>i<length out. i * rate < length input"
proof -
  show inr: "\<forall>i<length out. i * rate < length input"
  proof (intro allI impI)
    fix i assume "i < length out"
    then have "Suc i \<le> (length input + rate - 1) div rate" using assms(2) by simp
    then have "Suc i * rate \<le> length input + rate - 1"
      using assms(1) by (simp add: less_eq_div_iff_mult_less_eq)
    then show "i * rate < length input" using assms(1) by simp
  qed
  then have all: "\<forall>i<length out. 0 + i * rate < length input" by simp
  have small: "length input \<le> 2 ^ 64" using assms(1, 3) by simp
  from Decimate_loop_reads [OF small all]
  show "Decimate out input rate = Inr (map (\<lambda>i. input ! (i * rate)) [0..<length out])"
    using assms by (simp add: Decimate_def size_t_small)
qed

text \<open>
  Claim C7, as amended. For an input of length \<open>n\<close> of at least one and a rate of at
  least one with \<open>n + rate - 1 < 2^64\<close>, so that the sum of line 25 does not wrap,
  \<^verbatim>\<open>Decimate\<close> with an output buffer of length \<open>ceil(n / rate)\<close> passes its
  assertion, reads only inside the input, and leaves \<open>input[i * rate]\<close> in every
  element \<open>i\<close> of the output.
\<close>

theorem Decimate_samples:
  assumes "1 \<le> length input" and "1 \<le> rate"
    and "length input + rate - 1 < 2 ^ 64"
    and "int (length out) = \<lceil>(of_nat (length input) :: rat) / of_nat rate\<rceil>"
  shows "\<exists>out'. Decimate out input rate = Inr out' \<and> length out' = length out \<and>
           (\<forall>i<length out'. i * rate < length input \<and> out' ! i = input ! (i * rate))"
proof -
  have r: "0 < rate" using assms(2) by simp
  have len: "length out = (length input + rate - 1) div rate"
    using assms(4) ceiling_nat_div [OF r, of "length input"] by simp
  show ?thesis
    using Decimate_reads [OF r len assms(3)] by simp
qed

text \<open>
  Claim C7 as stated fails: with two input samples and the rate \<open>2^64 - 1\<close> the sum
  of line 25 wraps to zero, so the assertion rejects the output buffer of length
  \<open>ceil(2 / rate) = 1\<close>.
\<close>

theorem Decimate_samples_counterexample:
  "int (length [0 :: int]) =
     \<lceil>(of_nat (length [1, 2 :: int]) :: rat) / of_nat 18446744073709551615\<rceil> \<and>
   Decimate [0] [1, 2 :: int] 18446744073709551615 = Inl (Assertion_failed 25)"
proof -
  have "\<lceil>(2 :: rat) / 18446744073709551615\<rceil> = 1" by (rule ceiling_unique) simp_all
  then have "int (length [0 :: int]) =
     \<lceil>(of_nat (length [1, 2 :: int]) :: rat) / of_nat 18446744073709551615\<rceil>" by simp
  moreover have "Decimate [0] [1, 2 :: int] 18446744073709551615 = Inl (Assertion_failed 25)"
    by (simp add: Decimate_def size_t_def)
  ultimately show ?thesis by simp
qed

text \<open>
  Claim C6, as amended. For every signal \<open>x\<close> and every rate of at least one with
  \<open>length x * rate + rate - 1 < 2^64\<close>, so that neither the product of line 69 nor the
  sum of line 37 wraps, \<^verbatim>\<open>Expand\<close> returns a signal of \<open>length x * rate\<close> samples
  whose every \<open>rate\<close>th sample is the corresponding sample of the input and whose other
  samples are zero, and \<^verbatim>\<open>Decimate\<close> at the same rate gives the input back.
\<close>

theorem Decimate_Expand_round_trip:
  assumes "1 \<le> rate" and "length x * rate + rate - 1 < 2 ^ 64"
  shows "\<exists>e. Expand_new x rate = Inr e \<and> length e = length x * rate \<and>
           (\<forall>j<length e. e ! j = (if rate dvd j then x ! (j div rate) else 0)) \<and>
           Decimate_new e rate = Inr x"
proof -
  have r: "0 < rate" using assms(1) by simp
  let ?e = "zero_stuffed rate x"
  have len: "length ?e = length x * rate" by (rule length_zero_stuffed [OF r])
  have small: "length ?e + rate - 1 < 2 ^ 64" using assms(2) by (simp only: len)
  have prod_small: "length x * rate < 2 ^ 64" using assms(2) r by simp
  have "length ?e + rate - 1 = (rate - 1) + length x * rate" using r by (simp add: len)
  then have sz: "(length ?e + rate - 1) div rate = length x"
    using r by (simp only: div_mult_self1) simp
  have "Decimate (replicate (length x) 0) ?e rate =
          Inr (map (\<lambda>i. ?e ! (i * rate)) [0..<length x])"
    using Decimate_reads(1) [OF r _ small, of "replicate (length x) 0"] sz by simp
  also have "map (\<lambda>i. ?e ! (i * rate)) [0..<length x] = map (\<lambda>i. x ! i) [0..<length x]"
    using r by (intro map_cong refl) (simp add: nth_zero_stuffed)
  also have "\<dots> = x" by (rule map_nth)
  finally have d0: "Decimate (replicate (length x) 0) ?e rate = Inr x" .
  have dec: "Decimate_new ?e rate = Inr x"
    unfolding Decimate_new_def size_t_small [OF small] sz using r d0 by simp
  show ?thesis
    using Expand_new_eq [OF r prod_small] len dec nth_zero_stuffed [OF r, of _ x] by simp
qed

text \<open>
  Claim C6 as stated fails: with two samples and the rate \<open>2^63\<close> the product of
  line 69 wraps to zero, the assertion of line 53 passes on the empty buffer, and the
  first write of line 56 is outside it.
\<close>

theorem Decimate_Expand_round_trip_counterexample:
  "size_t (length [1, 2 :: int] * 9223372036854775808) = 0 \<and>
   Expand_new [1, 2 :: int] 9223372036854775808 = Inl Out_of_range"
  by (simp add: Expand_new_def Expand_def size_t_def)

theorem Decimate_samples_witness:
  "\<exists>out'. Decimate [0, 0, 0] [1, 2, 3, 4, 5, 6, 7 :: int] 3 = Inr out' \<and>
           out' ! 0 = 1 \<and> out' ! 1 = 4 \<and> out' ! 2 = 7"
proof -
  have h1: "1 \<le> length [1, 2, 3, 4, 5, 6, 7 :: int]" by simp
  have h2: "1 \<le> (3::nat)" by simp
  have "\<lceil>(7::rat) / 3\<rceil> = 3" by (rule ceiling_unique) simp_all
  then have h3: "int (length [0, 0, 0 :: int]) =
      \<lceil>(of_nat (length [1, 2, 3, 4, 5, 6, 7 :: int]) :: rat) / of_nat 3\<rceil>" by simp
  have h4: "length [1, 2, 3, 4, 5, 6, 7 :: int] + 3 - 1 < 2 ^ 64" by simp
  from Decimate_samples [OF h1 h2 h4 h3] obtain out' where
    d: "Decimate [0, 0, 0] [1, 2, 3, 4, 5, 6, 7 :: int] 3 = Inr out'" and
    l: "length out' = length [0, 0, 0 :: int]" and
    n: "\<forall>i<length out'. i * 3 < length [1, 2, 3, 4, 5, 6, 7 :: int] \<and>
          out' ! i = [1, 2, 3, 4, 5, 6, 7] ! (i * 3)"
    by blast
  have "out' ! 0 = 1" using n l by simp
  moreover have "out' ! 1 = 4" using n [rule_format, of 1] l by simp
  moreover have "out' ! 2 = 7" using n [rule_format, of 2] l by simp
  ultimately show ?thesis using d by blast
qed

theorem Decimate_Expand_round_trip_witness:
  "Expand_new [5, 6 :: int] 3 = Inr [5, 0, 0, 6, 0, 0] \<and>
   Decimate_new [5, 0, 0, 6, 0, 0 :: int] 3 = Inr [5, 6]"
proof -
  have h: "1 \<le> (3::nat)" by simp
  have h2: "length [5, 6 :: int] * 3 + 3 - 1 < 2 ^ 64" by simp
  from Decimate_Expand_round_trip [OF h h2] obtain e where
    e: "Expand_new [5, 6 :: int] 3 = Inr e" and d: "Decimate_new e 3 = Inr [5, 6]"
    by blast
  have "Expand_new [5, 6 :: int] 3 = Inr (zero_stuffed 3 [5, 6])"
    by (rule Expand_new_eq) simp_all
  moreover have "zero_stuffed 3 [5, 6 :: int] = [5, 0, 0, 6, 0, 0]"
    by (simp add: zero_stuffed_def eval_nat_numeral)
  ultimately have "Expand_new [5, 6 :: int] 3 = Inr [5, 0, 0, 6, 0, 0]" by simp
  then show ?thesis using e d by simp
qed

section \<open>Interpolate: properties\<close>



lemma length_phase:
  "length (phase pv i) = (OriginalSize pv - i + FilterCount pv - 1) div FilterCount pv"
  by (simp add: phase_def)



lemma length_phase_le_PhaseSize:
  "length (phase pv i) \<le> PhaseSize pv"
  by (simp add: length_phase PhaseSize_def div_le_mono)




lemma SubSignal_inside:
  "0 \<le> first \<Longrightarrow> 0 \<le> count \<Longrightarrow> first + count \<le> int (length xs) \<Longrightarrow>
   SubSignal xs first count = Inr (take (nat count) (drop (nat first) xs))"
  by (simp add: SubSignal_def)









section \<open>Resample: properties\<close>

lemma frac_Rational_frac: "frac_Rational x = frac x"
  by (simp add: frac_Rational_def floor_Rational_def frac_def)

lemma Denominator_pos: "0 < Denominator x"
  by (simp add: Denominator_def quotient_of_denom_pos')

lemma Rational_Numerator_Denominator: "Rational (Numerator r) (Denominator r) = Inr r"
  using Denominator_pos [of r] by (simp add: Rational_def Numerator_def Denominator_def)

lemma Numerator_eq_0_iff: "Numerator r = 0 \<longleftrightarrow> r = 0"
proof
  assume "Numerator r = 0"
  then have "Fract (fst (quotient_of r)) (snd (quotient_of r)) = 0"
    by (simp add: Numerator_def rat_number_collapse)
  then show "r = 0" by simp
next
  assume "r = 0"
  then show "Numerator r = 0" by (simp add: Numerator_def)
qed

lemma Numerator_over_Denominator: "of_int (Numerator r) / of_int (Denominator r) = r"
  using Fract_quotient_of [of r] by (simp add: Fract_of_int_quotient Numerator_def Denominator_def)

lemma ChangeSampleRate_to_input:
  "ChangeSampleRate (Denominator r) (Numerator r) y = Inr (y * r)"
  by (simp add: ChangeSampleRate_def Rational_Numerator_Denominator)

lemma ChangeSampleRate_to_output:
  "ChangeSampleRate (Numerator r) (Denominator r) y =
     (if r = 0 then Inl Zero_denominator else Inr (y / r))"
proof (cases "r = 0")
  case True
  then show ?thesis by (simp add: ChangeSampleRate_def Rational_def Numerator_eq_0_iff)
next
  case False
  have "Fract (Denominator r) (Numerator r) = 1 / r"
    using Numerator_over_Denominator [of r] Denominator_pos [of r]
    by (simp add: Fract_of_int_quotient divide_simps)
  then show ?thesis using False
    by (simp add: ChangeSampleRate_def Rational_def Numerator_eq_0_iff)
qed

lemma Resample_loop_iff:
  "Resample_loop out x pv r idx = Inr (ys, idx') \<longleftrightarrow>
     length ys = length out \<and> idx' = idx + of_nat (length out) \<and>
     (\<forall>k<length out. Resample_body x pv r (idx + of_nat k) = Inr (ys ! k))"
proof (induction out arbitrary: ys idx)
  case Nil
  then show ?case by auto
next
  case (Cons o1 os)
  show ?case
  proof (cases ys)
    case Nil
    then show ?thesis by (auto split: sum.splits)
  next
    case (Cons v vs)
    have all_Suc: "(\<forall>k<Suc (length os). Resample_body x pv r (idx + of_nat k) = Inr ((v # vs) ! k)) \<longleftrightarrow>
        Resample_body x pv r idx = Inr v \<and>
        (\<forall>k<length os. Resample_body x pv r (idx + 1 + of_nat k) = Inr (vs ! k))"
      by (auto simp: less_Suc_eq_0_disj add.assoc)
    have "Resample_loop (o1 # os) x pv r idx = Inr (v # vs, idx') \<longleftrightarrow>
        Resample_body x pv r idx = Inr v \<and> Resample_loop os x pv r (idx + 1) = Inr (vs, idx')"
      by (auto split: sum.splits)
    also have "\<dots> \<longleftrightarrow> Resample_body x pv r idx = Inr v \<and>
        (length vs = length os \<and> idx' = idx + 1 + of_nat (length os) \<and>
         (\<forall>k<length os. Resample_body x pv r (idx + 1 + of_nat k) = Inr (vs ! k)))"
      by (simp only: Cons.IH)
    finally show ?thesis unfolding Cons using all_Suc by (auto simp: add.assoc)
  qed
qed

lemma Numerator_bounds:
  assumes "0 \<le> t" and "t < 1"
  shows "0 \<le> Numerator t" and "Numerator t < Denominator t"
proof -
  have d: "0 < (of_int (Denominator t) :: rat)" using Denominator_pos [of t] by simp
  have t: "t = of_int (Numerator t) / of_int (Denominator t)"
    by (simp add: Numerator_over_Denominator)
  have "0 \<le> (of_int (Numerator t) :: rat)"
    using assms(1) d t by (metis zero_le_divide_iff not_less order_less_imp_le)
  then show "0 \<le> Numerator t" by simp
  have "(of_int (Numerator t) :: rat) < of_int (Denominator t)"
    using assms(2) d t by (metis divide_less_eq_1_pos)
  then show "Numerator t < Denominator t" by simp
qed

lemma first_phase_bound:
  assumes "0 < P"
  shows "0 \<le> \<lfloor>frac y * of_int (int P)\<rfloor>" and "nat \<lfloor>frac (y::rat) * of_int (int P)\<rfloor> < P"
proof -
  have "0 \<le> frac y * of_int (int P)" by simp
  then show a: "0 \<le> \<lfloor>frac y * of_int (int P)\<rfloor>" by simp
  have "frac y * of_int (int P) < 1 * of_int (int P)"
    using assms frac_lt_1 [of y] by (intro mult_strict_right_mono) simp_all
  then have "\<lfloor>frac y * of_int (int P)\<rfloor> < int P" by (simp add: floor_less_iff)
  then show "nat \<lfloor>frac y * of_int (int P)\<rfloor> < P" using a by (simp add: nat_less_iff)
qed

lemma InputIndex2Sample_eq:
  assumes "0 < P"
  shows "InputIndex2Sample y P =
    Inr (\<lparr>inputIndex = \<lfloor>y\<rfloor>,
          phaseIndex = nat \<lfloor>frac y * of_int (int P)\<rfloor>,
          weight = nat (Denominator (frac (frac y * of_int (int P)))
                          - Numerator (frac (frac y * of_int (int P))))\<rparr>,
         \<lparr>inputIndex = (if (nat \<lfloor>frac y * of_int (int P)\<rfloor> + 1) mod P = 0 then \<lfloor>y\<rfloor> + 1 else \<lfloor>y\<rfloor>),
          phaseIndex = (nat \<lfloor>frac y * of_int (int P)\<rfloor> + 1) mod P,
          weight = nat (Numerator (frac (frac y * of_int (int P))))\<rparr>)"
  using assms by (simp add: InputIndex2Sample_def Let_def frac_Rational_frac floor_Rational_def)

lemma weights_sum:
  "nat (Denominator (frac t) - Numerator (frac t)) + nat (Numerator (frac t)) =
     nat (Denominator (frac t))"
  using Numerator_bounds [of "frac t"] frac_lt_1 [of t] by simp

text \<open>
  Claim C4, as amended. For every exact position and every phase count of at least one,
  the two candidates are adjacent, \<open>secondPhase = (firstPhase + 1) mod P\<close> with
  \<open>firstPhase < P\<close>; their weights add up to the denominator of the reduced
  fraction \<open>t = frac (frac inputIndex * P)\<close>, which is at least one (and in general
  is not \<open>P\<close>); and the output sample is the average of the two candidate dot
  products weighted by them and divided by their sum.
\<close>

theorem InputIndex2Sample_candidates:
  fixes x :: "'a::field list"
  assumes "1 \<le> FilterCount pv"
  shows "\<exists>a b. InputIndex2Sample y (FilterCount pv) = Inr (a, b) \<and>
           phaseIndex a < FilterCount pv \<and>
           phaseIndex b = (phaseIndex a + 1) mod FilterCount pv \<and>
           int (weight a + weight b) =
             Denominator (frac_Rational (frac_Rational y * of_int (int (FilterCount pv)))) \<and>
           1 \<le> weight a + weight b \<and>
           (\<forall>v1 v2. DotProductSample x (phase pv (phaseIndex a)) (inputIndex a) = Inr v1 \<longrightarrow>
                    DotProductSample x (phase pv (phaseIndex b)) (inputIndex b) = Inr v2 \<longrightarrow>
              Resample_at x pv y =
                Inr ((v1 * of_nat (weight a) + v2 * of_nat (weight b))
                     / (of_nat (weight a) + of_nat (weight b))))"
proof -
  have P: "0 < FilterCount pv" using assms by simp
  let ?t = "frac (frac y * of_int (int (FilterCount pv)))"
  define a :: PhaseSample where "a =
     \<lparr>inputIndex = \<lfloor>y\<rfloor>, phaseIndex = nat \<lfloor>frac y * of_int (int (FilterCount pv))\<rfloor>,
      weight = nat (Denominator ?t - Numerator ?t)\<rparr>"
  define b :: PhaseSample where "b =
     \<lparr>inputIndex = (if (phaseIndex a + 1) mod FilterCount pv = 0 then \<lfloor>y\<rfloor> + 1 else \<lfloor>y\<rfloor>),
      phaseIndex = (phaseIndex a + 1) mod FilterCount pv,
      weight = nat (Numerator ?t)\<rparr>"
  have ab: "InputIndex2Sample y (FilterCount pv) = Inr (a, b)"
    unfolding InputIndex2Sample_eq [OF P] a_def b_def by simp
  have ph: "phaseIndex a < FilterCount pv"
    using first_phase_bound(2) [OF P, of y] by (simp add: a_def)
  have d: "0 < Denominator ?t" by (rule Denominator_pos)
  have w: "weight a + weight b = nat (Denominator ?t)"
    using weights_sum [of "frac y * of_int (int (FilterCount pv))"] by (simp add: a_def b_def)
  have w1: "int (weight a + weight b) = Denominator ?t" using w d by simp
  have w2: "1 \<le> weight a + weight b" using w d by simp
  show ?thesis
    using ab ph w1 w2 by (simp add: Resample_at_def frac_Rational_frac b_def)
qed

theorem InputIndex2Sample_candidates_witness:
  "InputIndex2Sample (7 / 3) (FilterCount \<lparr>taps = [1, 2, 3, 2, 1 :: rat], numFilters = 2\<rparr>) =
     Inr (\<lparr>inputIndex = 2, phaseIndex = 0, weight = 1\<rparr>,
          \<lparr>inputIndex = 2, phaseIndex = 1, weight = 2\<rparr>) \<and>
   Denominator (frac_Rational (frac_Rational (7 / 3) * 2)) = 3 \<and>
   Resample_at [10, 20, 30, 40, 50, 60 :: rat] \<lparr>taps = [1, 2, 3, 2, 1], numFilters = 2\<rparr> (7 / 3)
     = Inr 100"
proof -
  let ?pv = "\<lparr>taps = [1, 2, 3, 2, 1 :: rat], numFilters = 2\<rparr>"
  have h: "1 \<le> FilterCount ?pv" by (simp add: FilterCount_def)
  from InputIndex2Sample_candidates [OF h, of "7 / 3" "[10, 20, 30, 40, 50, 60]"] obtain a b where
    "InputIndex2Sample (7 / 3) (FilterCount ?pv) = Inr (a, b)" by blast
  moreover have "InputIndex2Sample (7 / 3) (FilterCount ?pv) =
     Inr (\<lparr>inputIndex = 2, phaseIndex = 0, weight = 1\<rparr>,
          \<lparr>inputIndex = 2, phaseIndex = 1, weight = 2\<rparr>)" by code_simp
  moreover have "Denominator (frac_Rational (frac_Rational (7 / 3) * 2)) = 3" by code_simp
  moreover have "Resample_at [10, 20, 30, 40, 50, 60 :: rat] ?pv (7 / 3) = Inr 100"
    by code_simp
  ultimately show ?thesis by simp
qed

text \<open>
  Claim C4 as stated fails: at the position \<open>1/3\<close> with two phases the weights are
  \<open>1\<close> and \<open>2\<close>, whose sum is not the phase count.
\<close>

theorem InputIndex2Sample_weights_counterexample:
  "InputIndex2Sample (1 / 3) 2 =
     Inr (\<lparr>inputIndex = 0, phaseIndex = 0, weight = 1\<rparr>,
          \<lparr>inputIndex = 0, phaseIndex = 1, weight = 2\<rparr>) \<and>
   (1::nat) + 2 \<noteq> 2"
proof -
  have "InputIndex2Sample (1 / 3) 2 =
     Inr (\<lparr>inputIndex = 0, phaseIndex = 0, weight = 1\<rparr>,
          \<lparr>inputIndex = 0, phaseIndex = 1, weight = 2\<rparr>)" by code_simp
  then show ?thesis by simp
qed

text \<open>
  Claim C10. The loop of \<^verbatim>\<open>Resample\<close> runs after the assertion of line 285, that
  is, with a positive phase count. At every position the divisor of the blend,
  \<open>firstWeight + secondWeight\<close>, is the denominator of the reduced scaled fractional
  position and is strictly positive, as a count and as a sample value.
\<close>

theorem InputIndex2Sample_divisor_positive:
  assumes "0 < FilterCount pv"
  shows "\<exists>a b. InputIndex2Sample y (FilterCount pv) = Inr (a, b) \<and>
           0 < weight a + weight b \<and>
           int (weight a + weight b) =
             Denominator (frac_Rational (frac_Rational y * of_int (int (FilterCount pv)))) \<and>
           (0 :: 'b::linordered_field) < of_nat (weight a) + of_nat (weight b)"
proof -
  let ?t = "frac (frac y * of_int (int (FilterCount pv)))"
  define a :: PhaseSample where "a =
     \<lparr>inputIndex = \<lfloor>y\<rfloor>, phaseIndex = nat \<lfloor>frac y * of_int (int (FilterCount pv))\<rfloor>,
      weight = nat (Denominator ?t - Numerator ?t)\<rparr>"
  define b :: PhaseSample where "b =
     \<lparr>inputIndex = (if (phaseIndex a + 1) mod FilterCount pv = 0 then \<lfloor>y\<rfloor> + 1 else \<lfloor>y\<rfloor>),
      phaseIndex = (phaseIndex a + 1) mod FilterCount pv,
      weight = nat (Numerator ?t)\<rparr>"
  have ab: "InputIndex2Sample y (FilterCount pv) = Inr (a, b)"
    unfolding InputIndex2Sample_eq [OF assms] a_def b_def by simp
  have d: "0 < Denominator ?t" by (rule Denominator_pos)
  have w: "weight a + weight b = nat (Denominator ?t)"
    using weights_sum [of "frac y * of_int (int (FilterCount pv))"] by (simp add: a_def b_def)
  have w1: "int (weight a + weight b) =
      Denominator (frac_Rational (frac_Rational y * of_int (int (FilterCount pv))))"
    using w d by (simp add: frac_Rational_frac)
  have w2: "0 < weight a + weight b" using w d by simp
  then have "(0 :: 'b) < of_nat (weight a + weight b)"
    by (simp only: of_nat_0_less_iff)
  then have w3: "(0 :: 'b) < of_nat (weight a) + of_nat (weight b)" by simp
  show ?thesis using ab w1 w2 w3 by blast
qed

theorem InputIndex2Sample_divisor_positive_witness:
  "InputIndex2Sample (5 / 4) (FilterCount \<lparr>taps = [1, 2, 3 :: rat], numFilters = 3\<rparr>) =
     Inr (\<lparr>inputIndex = 1, phaseIndex = 0, weight = 1\<rparr>,
          \<lparr>inputIndex = 1, phaseIndex = 1, weight = 3\<rparr>) \<and>
   Denominator (frac_Rational (frac_Rational (5 / 4) * 3)) = 4"
proof -
  let ?pv = "\<lparr>taps = [1, 2, 3 :: rat], numFilters = 3\<rparr>"
  have h: "0 < FilterCount ?pv" by (simp add: FilterCount_def)
  from InputIndex2Sample_divisor_positive [OF h, of "5 / 4"] obtain a b where
    "InputIndex2Sample (5 / 4) (FilterCount ?pv) = Inr (a, b)" by blast
  moreover have "InputIndex2Sample (5 / 4) (FilterCount ?pv) =
     Inr (\<lparr>inputIndex = 1, phaseIndex = 0, weight = 1\<rparr>,
          \<lparr>inputIndex = 1, phaseIndex = 1, weight = 3\<rparr>)" by code_simp
  moreover have "Denominator (frac_Rational (frac_Rational (5 / 4) * 3)) = 4" by code_simp
  ultimately show ?thesis by simp
qed

lemma Resample_success:
  "Resample out x pv r s = Inr (ys, c) \<longleftrightarrow>
     0 \<le> r \<and> 0 \<le> s \<and> 0 < FilterCount pv \<and>
     (\<exists>m. ResamplingLength (length x) (OriginalSize pv) (FilterCount pv) r = Inr m \<and>
          s + of_nat (length out) < m) \<and>
     Resample_loop out x pv r s = Inr (ys, s + of_nat (length out)) \<and>
     Continuation (s + of_nat (length out)) (OriginalSize pv) (FilterCount pv) r = Inr c"
proof -
  have idx: "idx' = s + of_nat (length out)"
    if "Resample_loop out x pv r s = Inr (zs, idx')" for zs idx'
    using that by (simp add: Resample_loop_iff)
  show ?thesis
    by (auto simp: Resample_def split: sum.splits prod.splits dest: idx)
qed

text \<open>
  Claim C3, as amended. The output sample \<open>k\<close> of a call of \<^verbatim>\<open>Resample\<close> that
  returns is computed at the input position \<open>(startPoint + k) * sampleRates\<close>:
  \<^verbatim>\<open>ChangeSampleRate\<close> multiplies the output index by the ratio.
\<close>

theorem Resample_input_position:
  assumes "Resample out x pv r s = Inr (ys, c)" and "k < length out"
  shows "ChangeSampleRate (Denominator r) (Numerator r) (s + of_nat k) = Inr ((s + of_nat k) * r) \<and>
         Resample_at x pv ((s + of_nat k) * r) = Inr (ys ! k)"
proof -
  have "Resample_loop out x pv r s = Inr (ys, s + of_nat (length out))"
    using assms(1) by (simp add: Resample_success)
  then have "Resample_body x pv r (s + of_nat k) = Inr (ys ! k)"
    using assms(2) by (simp add: Resample_loop_iff)
  then show ?thesis
    by (simp add: Resample_body_def ChangeSampleRate_to_input)
qed

theorem Resample_input_position_witness:
  "Resample [0, 0] [10, 20, 30, 40, 50, 60 :: rat] \<lparr>taps = [1], numFilters = 1\<rparr> 2 0 =
     Inr ([10, 30], \<lparr>firstInputSample = 4, startPoint = 0\<rparr>) \<and>
   Resample_at [10, 20, 30, 40, 50, 60 :: rat] \<lparr>taps = [1], numFilters = 1\<rparr> ((0 + of_nat 1) * 2) =
     Inr ([10, 30] ! 1)"
proof -
  have h1: "Resample [0, 0] [10, 20, 30, 40, 50, 60 :: rat] \<lparr>taps = [1], numFilters = 1\<rparr> 2 0 =
     Inr ([10, 30], \<lparr>firstInputSample = 4, startPoint = 0\<rparr>)" by code_simp
  have h2: "1 < length [0, 0 :: rat]" by simp
  show ?thesis using Resample_input_position [OF h1 h2] h1 by simp
qed

text \<open>
  Claim C3 as stated fails: with the ratio \<open>2\<close> the output index \<open>1\<close> is
  mapped to the input position \<open>2\<close> (the sample \<open>30\<close>), not to \<open>1/2\<close> (where
  the blend would be \<open>15\<close>).
\<close>

theorem Resample_input_position_counterexample:
  "Resample [0, 0] [10, 20, 30, 40, 50, 60 :: rat] \<lparr>taps = [1], numFilters = 1\<rparr> 2 0 =
     Inr ([10, 30], \<lparr>firstInputSample = 4, startPoint = 0\<rparr>) \<and>
   ChangeSampleRate (Denominator 2) (Numerator 2) (0 + 1) = Inr 2 \<and>
   (2::rat) \<noteq> (0 + 1) / 2 \<and>
   Resample_at [10, 20, 30, 40, 50, 60 :: rat] \<lparr>taps = [1], numFilters = 1\<rparr> ((0 + 1) / 2) = Inr 15"
proof -
  have "Resample [0, 0] [10, 20, 30, 40, 50, 60 :: rat] \<lparr>taps = [1], numFilters = 1\<rparr> 2 0 =
     Inr ([10, 30], \<lparr>firstInputSample = 4, startPoint = 0\<rparr>)" by code_simp
  moreover have "ChangeSampleRate (Denominator 2) (Numerator 2) (0 + 1) = Inr 2" by code_simp
  moreover have "Resample_at [10, 20, 30, 40, 50, 60 :: rat] \<lparr>taps = [1], numFilters = 1\<rparr> ((0 + 1) / 2) = Inr 15"
    by code_simp
  ultimately show ?thesis by simp
qed

text \<open>
  Claim C5. A ratio of zero passes the assertion of line 283
  (\<^verbatim>\<open>sampleRates >= 0\<close>) and the two that follow; the call goes on to
  \<^verbatim>\<open>ResamplingLength\<close>, which divides by the ratio.
\<close>

theorem Resample_zero_rate:
  "Resample [0] [1, 2 :: rat] \<lparr>taps = [1], numFilters = 1\<rparr> 0 0 = Inl Zero_denominator \<and>
   ResamplingLength (length [1, 2 :: rat]) (OriginalSize \<lparr>taps = [1 :: rat], numFilters = 1\<rparr>)
     (FilterCount \<lparr>taps = [1 :: rat], numFilters = 1\<rparr>) 0 = Inl Zero_denominator"
  by code_simp

text \<open>
  Every other invalid configuration fails an assertion before the loop: a phase count of
  zero, a negative ratio, a negative start point, or a request that is not below the
  maximum length.
\<close>

lemma Resample_rejects:
  assumes "FilterCount pv = 0 \<or> r < 0 \<or> s < 0 \<or>
    (\<exists>m. ResamplingLength (length x) (OriginalSize pv) (FilterCount pv) r = Inr m \<and>
         \<not> s + of_nat (length out) < m)"
  shows "\<exists>n. Resample out x pv r s = Inl (Assertion_failed n)"
  using assms by (auto simp: Resample_def)

lemma DotProductSample_single_tap:
  fixes x :: "'a::semiring_1 list"
  assumes "0 \<le> i" and "i < int (length x)"
  shows "DotProductSample x [1] i = Inr (x ! nat i)"
proof -
  have t: "take (Suc 0) (drop (nat i) x) = [x ! nat i]"
    using assms by (simp add: take_Suc_conv_app_nth)
  have lo: "max 0 (i - int (length [1::'a]) + 1) = i" using assms by simp
  have hi: "min (int (length x)) (i + 1) = i + 1" using assms by simp
  show ?thesis
    unfolding DotProductSample_def Let_def lo hi
    using assms t by (simp add: SubSignal_def DotProduct_def)
qed

lemma identity_bank:
  "FilterCount \<lparr>taps = [1], numFilters = 1\<rparr> = 1"
  "OriginalSize \<lparr>taps = [1], numFilters = 1\<rparr> = 1"
  by (simp_all add: FilterCount_def OriginalSize_def)

lemma Resample_at_identity:
  fixes x :: "'a::field list"
  assumes "Suc k < length x"
  shows "Resample_at x \<lparr>taps = [1], numFilters = 1\<rparr> (of_nat k) = Inr (x ! k)"
proof -
  have q: "Numerator 0 = 0" "Denominator 0 = 1" by (simp_all add: Numerator_def Denominator_def)
  have f: "frac (of_nat k :: rat) = 0" by (simp add: frac_def)
  have i2s: "InputIndex2Sample (of_nat k) 1 =
      Inr (\<lparr>inputIndex = int k, phaseIndex = 0, weight = 1\<rparr>,
           \<lparr>inputIndex = int k + 1, phaseIndex = 0, weight = 0\<rparr>)"
    by (simp add: InputIndex2Sample_def Let_def frac_Rational_def floor_Rational_def q)
  have d1: "DotProductSample x [1] (int k) = Inr (x ! k)"
    using DotProductSample_single_tap [of "int k" x] assms by simp
  have d2: "DotProductSample x [1] (int k + 1) = Inr (x ! Suc k)"
    using DotProductSample_single_tap [of "int k + 1" x] assms by (simp add: nat_add_distrib)
  have ph1: "phase \<lparr>taps = [1::'a], numFilters = Suc 0\<rparr> 0 = [1]"
    by (simp add: phase_def FilterCount_def OriginalSize_def)
  show ?thesis
    using i2s by (simp add: Resample_at_def FilterCount_def ph1 d1 d2)
qed

text \<open>
  Claim C8. With the ratio \<open>1\<close>, the start point \<open>0\<close> and the bank of one
  phase with the single tap \<open>1\<close>, every output length that the length assertion
  of line 288 permits gives \<open>output[k] = input[k]\<close> for every \<open>k\<close>; the delay
  of this bank is zero.
\<close>

theorem Resample_identity:
  fixes x :: "'a::field list"
  assumes "ResamplingLength (length x) (OriginalSize \<lparr>taps = [1::'a], numFilters = 1\<rparr>)
             (FilterCount \<lparr>taps = [1::'a], numFilters = 1\<rparr>) 1 = Inr maxLength"
    and "0 + of_int (int (length out)) < maxLength"
  shows "\<exists>ys c. Resample out x \<lparr>taps = [1], numFilters = 1\<rparr> 1 0 = Inr (ys, c) \<and>
           length ys = length out \<and> (\<forall>k<length out. ys ! k = x ! k) \<and>
           ResamplingDelay (OriginalSize \<lparr>taps = [1::'a], numFilters = 1\<rparr>)
             (FilterCount \<lparr>taps = [1::'a], numFilters = 1\<rparr>) 1 = Inr 0"
proof -
  let ?pv = "\<lparr>taps = [1::'a], numFilters = 1\<rparr>"
  have m: "maxLength = of_nat (length x)"
    using assms(1) unfolding identity_bank
    by (simp add: ResamplingLength_def divide_Rational_def ConvolutionLength_def Let_def)
  have len: "length out < length x" using assms(2) m by simp
  let ?ys = "take (length out) x"
  have body: "Resample_body x ?pv 1 (0 + of_nat k) = Inr (?ys ! k)" if "k < length out" for k
    using that len Resample_at_identity [of k x]
    by (simp add: Resample_body_def ChangeSampleRate_to_input)
  have loop: "Resample_loop out x ?pv 1 0 = Inr (?ys, 0 + of_nat (length out))"
    using body len by (simp add: Resample_loop_iff)
  have "\<exists>c. Continuation (0 + of_nat (length out)) (OriginalSize ?pv) (FilterCount ?pv) 1 = Inr c"
    unfolding identity_bank
    by (simp add: Continuation_def ChangeSampleRate_to_input ChangeSampleRate_to_output
          Rational_def Let_def)
  then obtain c where c: "Continuation (0 + of_nat (length out)) (OriginalSize ?pv) (FilterCount ?pv) 1 = Inr c"
    by blast
  have "Resample out x ?pv 1 0 = Inr (?ys, c)"
    unfolding Resample_success using loop c assms m by (simp add: FilterCount_def)
  moreover have "ResamplingDelay (OriginalSize ?pv) (FilterCount ?pv) 1 = Inr 0"
    unfolding identity_bank
    by (simp add: ResamplingDelay_def Rational_def divide_Rational_def rat_number_collapse)
  ultimately show ?thesis using len by auto
qed

theorem Resample_identity_witness:
  "Resample [0, 0, 0] [10, 20, 30, 40 :: rat] \<lparr>taps = [1], numFilters = 1\<rparr> 1 0 =
     Inr ([10, 20, 30], \<lparr>firstInputSample = 3, startPoint = 0\<rparr>)"
proof -
  let ?pv = "\<lparr>taps = [1::rat], numFilters = 1\<rparr>"
  have h1: "ResamplingLength (length [10, 20, 30, 40 :: rat]) (OriginalSize ?pv) (FilterCount ?pv) 1 = Inr 4"
    by code_simp
  have h2: "0 + of_int (int (length [0, 0, 0 :: rat])) < (4::rat)" by simp
  from Resample_identity [OF h1 h2] obtain ys c where
    "Resample [0, 0, 0] [10, 20, 30, 40 :: rat] ?pv 1 0 = Inr (ys, c)" by blast
  moreover have "Resample [0, 0, 0] [10, 20, 30, 40 :: rat] ?pv 1 0 =
     Inr ([10, 20, 30], \<lparr>firstInputSample = 3, startPoint = 0\<rparr>)" by code_simp
  ultimately show ?thesis by simp
qed

subsection \<open>Streaming\<close>

lemma DotProductSample_drop:
  fixes x :: "'a::semiring_0 list"
  assumes W: "W \<le> length x" and lo: "int W \<le> i - int (length f) + 1"
  shows "DotProductSample (drop W x) f (i - int W) = DotProductSample x f i"
proof -
  define dF where "dF = i - int (length f) + 1"
  have lo': "int W \<le> dF" "0 \<le> dF" using lo by (simp_all add: dF_def)
  have pf: "max 0 dF = dF" "max 0 (dF - int W) = dF - int W" using lo' by simp_all
  have dF': "i - int W - int (length f) + 1 = dF - int W" by (simp add: dF_def)
  have pl: "min (int (length (drop W x))) (i - int W + 1) = min (int (length x)) (i + 1) - int W"
    using W by (simp add: min_def)
  define cnt where "cnt = min (int (length x)) (i + 1) - dF"
  have cnt': "min (int (length x)) (i + 1) - int W - (dF - int W) = cnt" by (simp add: cnt_def)
  have sub: "SubSignal (drop W x) (dF - int W) cnt = SubSignal x dF cnt"
  proof (cases "0 \<le> cnt \<and> dF + cnt \<le> int (length x)")
    case True
    have "nat (dF - int W) + W = nat dF" using lo' by simp
    then show ?thesis using True lo' W
      by (simp add: SubSignal_def add.commute)
  next
    case False
    then show ?thesis using lo' W by (auto simp: SubSignal_def)
  qed
  have off: "dF - int W - (dF - int W) = 0" "dF - dF = 0" by simp_all
  show ?thesis
    unfolding DotProductSample_def Let_def dF' dF_def [symmetric] pf pl cnt' cnt_def [symmetric]
      off sub ..
qed

lemma InputIndex2Sample_shift:
  assumes "0 < P"
  shows "InputIndex2Sample (y + of_int W) P =
    (case InputIndex2Sample y P of
       Inl e \<Rightarrow> Inl e
     | Inr (a, b) \<Rightarrow> Inr (a\<lparr>inputIndex := inputIndex a + W\<rparr>, b\<lparr>inputIndex := inputIndex b + W\<rparr>))"
  unfolding InputIndex2Sample_eq [OF assms] by simp

lemma Resample_at_drop:
  fixes x :: "'a::field list"
  assumes P: "0 < FilterCount pv" and W: "W \<le> length x"
    and y: "int (PhaseSize pv) - 1 \<le> \<lfloor>y\<rfloor>"
  shows "Resample_at (drop W x) pv y = Resample_at x pv (y + of_int (int W))"
proof -
  have dps: "DotProductSample (drop W x) (phase pv p) j = DotProductSample x (phase pv p) (j + int W)"
    if "\<lfloor>y\<rfloor> \<le> j" for p j
  proof -
    have "int (length (phase pv p)) \<le> int (PhaseSize pv)"
      using length_phase_le_PhaseSize [of pv p] by simp
    then have "int W \<le> (j + int W) - int (length (phase pv p)) + 1" using y that by simp
    from DotProductSample_drop [OF W this] show ?thesis by simp
  qed
  obtain a b where ab: "InputIndex2Sample y (FilterCount pv) = Inr (a, b)"
    and ia: "\<lfloor>y\<rfloor> \<le> inputIndex a" and ib: "\<lfloor>y\<rfloor> \<le> inputIndex b"
    unfolding InputIndex2Sample_eq [OF P] by simp
  have sh: "InputIndex2Sample (y + of_int (int W)) (FilterCount pv) =
      Inr (a\<lparr>inputIndex := inputIndex a + int W\<rparr>, b\<lparr>inputIndex := inputIndex b + int W\<rparr>)"
    unfolding InputIndex2Sample_shift [OF P] ab by simp
  show ?thesis
    unfolding Resample_at_def ab sh
    by (simp add: dps [OF ia] dps [OF ib] cong: sum.case_cong)
qed

lemma ResamplingLength_eq:
  assumes "r \<noteq> 0" and "0 < P"
  shows "ResamplingLength N F P r = Inr (of_int (int P * int N + int F - 1) / r / of_nat P)"
  using assms by (simp add: ResamplingLength_def divide_Rational_def ConvolutionLength_def Let_def)

lemma Continuation_eq:
  assumes "r \<noteq> 0" and "0 < P"
  shows "Continuation n F P r =
    Inr (if n * r - of_int (int F - 1) / of_nat P \<le> 0
         then \<lparr>firstInputSample = 0, startPoint = n\<rparr>
         else \<lparr>firstInputSample = nat \<lfloor>n * r - of_int (int F - 1) / of_nat P\<rfloor>,
               startPoint = (frac (n * r - of_int (int F - 1) / of_nat P)
                               + of_int (int F - 1) / of_nat P) / r\<rparr>)"
  using assms
  by (simp add: Continuation_def ChangeSampleRate_to_input ChangeSampleRate_to_output
        Rational_def Fract_of_int_quotient Let_def frac_Rational_frac floor_Rational_def)

lemma PhaseSize_floor:
  assumes "0 < FilterCount pv" and "1 \<le> OriginalSize pv"
  shows "int (PhaseSize pv) - 1 = \<lfloor>(of_int (int (OriginalSize pv) - 1) :: rat) / of_nat (FilterCount pv)\<rfloor>"
proof -
  define F P where "F = OriginalSize pv" and "P = FilterCount pv"
  have e: "F + P - 1 = (F - 1) + P" using assms(2) unfolding F_def by arith
  have "((F - 1) + P) div P = (F - 1) div P + 1"
    using assms(1) unfolding P_def by simp
  then have "(F + P - 1) div P = (F - 1) div P + 1"
    by (simp only: e)
  then have a: "int (PhaseSize pv) - 1 = int ((F - 1) div P)"
    by (simp add: PhaseSize_def F_def P_def)
  have "\<lfloor>(of_int (int F - 1) :: rat) / of_nat P\<rfloor> = (int F - 1) div int P"
    using floor_divide_of_int_eq [of "int F - 1" "int P", where ?'a = rat] by simp
  also have "\<dots> = int ((F - 1) div P)"
  proof -
    have "int F - 1 = int (F - 1)" using assms by (simp add: F_def)
    then show ?thesis by (simp only: of_nat_div)
  qed
  finally show ?thesis using a by (simp add: F_def P_def)
qed

lemma Resample_loop_append:
  assumes "Resample_loop (out1 @ out2) x pv r s = Inr (full, idx)"
  shows "Resample_loop out1 x pv r s = Inr (take (length out1) full, s + of_nat (length out1))"
    and "Resample_loop out2 x pv r (s + of_nat (length out1)) =
           Inr (drop (length out1) full, s + of_nat (length out1) + of_nat (length out2))"
proof -
  have len: "length full = length out1 + length out2"
    and bodies: "\<forall>k<length out1 + length out2. Resample_body x pv r (s + of_nat k) = Inr (full ! k)"
    using assms by (simp_all add: Resample_loop_iff)
  show "Resample_loop out1 x pv r s = Inr (take (length out1) full, s + of_nat (length out1))"
    using len bodies by (simp add: Resample_loop_iff)
  have "Resample_body x pv r (s + of_nat (length out1) + of_nat k) =
          Inr (drop (length out1) full ! k)" if "k < length out2" for k
  proof -
    have "Resample_body x pv r (s + of_nat (length out1 + k)) = Inr (full ! (length out1 + k))"
      using bodies [rule_format, of "length out1 + k"] that by simp
    then show ?thesis using len that by (simp add: add.assoc)
  qed
  then show "Resample_loop out2 x pv r (s + of_nat (length out1)) =
           Inr (drop (length out1) full, s + of_nat (length out1) + of_nat (length out2))"
    using len by (simp add: Resample_loop_iff)
qed

lemma maxLength_times_rate:
  assumes "0 < r" and "0 < P"
  shows "(of_int (int P * int N + int F - 1) / r / of_nat P) * r =
           (of_nat N :: rat) + of_int (int F - 1) / of_nat P"
  using assms by (simp add: field_simps)

lemma Resample_second_call:
  fixes x :: "'a::field list"
  assumes P: "0 < FilterCount pv" and F: "1 \<le> OriginalSize pv" and r: "0 < r"
    and n0: "0 \<le> n"
    and pre: "n + of_nat (length out2) <
        of_int (int (FilterCount pv) * int (length x) + int (OriginalSize pv) - 1) / r
          / of_nat (FilterCount pv)"
    and loop: "Resample_loop out2 x pv r n = Inr (second, n + of_nat (length out2))"
    and c: "Continuation n (OriginalSize pv) (FilterCount pv) r = Inr c"
  shows "\<exists>c2. Resample out2 (drop (firstInputSample c) x) pv r (startPoint c) = Inr (second, c2)"
proof -
  define co :: rat where "co = of_int (int (OriginalSize pv) - 1) / of_nat (FilterCount pv)"
  define fi where "fi = n * r - co"
  have rn: "r \<noteq> 0" using r by simp
  have co0: "0 \<le> co" using F P by (simp add: co_def)
  have c_eq: "c = (if fi \<le> 0 then \<lparr>firstInputSample = 0, startPoint = n\<rparr>
                   else \<lparr>firstInputSample = nat \<lfloor>fi\<rfloor>, startPoint = (frac fi + co) / r\<rparr>)"
    using c unfolding Continuation_eq [OF rn P] fi_def co_def by simp
  have cont: "\<exists>c2. Continuation m (OriginalSize pv) (FilterCount pv) r = Inr c2" for m
    unfolding Continuation_eq [OF rn P] by simp
  have pre_r: "(n + of_nat (length out2)) * r < of_nat (length x) + co"
  proof -
    have "(n + of_nat (length out2)) * r <
        (of_int (int (FilterCount pv) * int (length x) + int (OriginalSize pv) - 1) / r
          / of_nat (FilterCount pv)) * r"
      using pre r by (rule mult_strict_right_mono)
    then show ?thesis unfolding maxLength_times_rate [OF r P] co_def .
  qed
  show ?thesis
  proof (cases "fi \<le> 0")
    case True
    then have c0: "firstInputSample c = 0" "startPoint c = n" by (simp_all add: c_eq)
    obtain c2 where c2: "Continuation (n + of_nat (length out2)) (OriginalSize pv) (FilterCount pv) r = Inr c2"
      using cont by blast
    have "Resample out2 x pv r n = Inr (second, c2)"
      unfolding Resample_success ResamplingLength_eq [OF rn P]
      using r n0 P pre loop c2 by simp
    then show ?thesis by (auto simp: c0)
  next
    case False
    define W where "W = nat \<lfloor>fi\<rfloor>"
    define s' where "s' = (frac fi + co) / r"
    have cW: "firstInputSample c = W" "startPoint c = s'" using False by (simp_all add: c_eq W_def s'_def)
    have fi0: "0 < fi" using False by simp
    have Wfl: "of_int (int W) = (of_int \<lfloor>fi\<rfloor> :: rat)" using fi0 by (simp add: W_def)
    have s'r0: "s' * r = frac fi + co" using rn by (simp add: s'_def)
    also have "\<dots> = fi - of_int \<lfloor>fi\<rfloor> + co" by (simp only: frac_def)
    also have "\<dots> = n * r - of_int \<lfloor>fi\<rfloor>" by (simp add: fi_def)
    finally have s'r: "s' * r = n * r - of_int (int W)" by (simp only: Wfl)
    have fi_lt: "fi < of_nat (length x)"
    proof -
      have "0 \<le> of_nat (length out2) * r" using r by simp
      then have "n * r \<le> (n + of_nat (length out2)) * r" by (simp add: algebra_simps)
      then show ?thesis using pre_r by (simp add: fi_def)
    qed
    have "(of_int \<lfloor>fi\<rfloor> :: rat) < of_nat (length x)"
      by (rule le_less_trans [OF of_int_floor_le fi_lt])
    then have "(of_int \<lfloor>fi\<rfloor> :: rat) < of_int (int (length x))" by simp
    then have "(of_int (int W) :: rat) < of_int (int (length x))" by (simp only: Wfl)
    then have W_lt: "W < length x" by (simp only: of_int_less_iff of_nat_less_iff)
    then have W_le: "W \<le> length x" by simp
    have len': "int (length (drop W x)) = int (length x) - int W" using W_le by simp
    have s'0: "0 \<le> s'" using co0 r by (simp add: s'_def)
    have pre': "s' + of_nat (length out2) <
        of_int (int (FilterCount pv) * int (length (drop W x)) + int (OriginalSize pv) - 1) / r
          / of_nat (FilterCount pv)"
    proof -
      have "(s' + of_nat (length out2)) * r = (n + of_nat (length out2)) * r - of_int (int W)"
        using s'r by (simp add: algebra_simps)
      also have "\<dots> < of_nat (length x) + co - of_int (int W)" using pre_r by simp
      also have "\<dots> = of_nat (length (drop W x)) + co" using W_le by (simp add: of_nat_diff)
      also have "\<dots> = (of_int (int (FilterCount pv) * int (length (drop W x)) + int (OriginalSize pv) - 1) / r
          / of_nat (FilterCount pv)) * r"
        unfolding maxLength_times_rate [OF r P] co_def ..
      finally have "(s' + of_nat (length out2)) * r <
          (of_int (int (FilterCount pv) * int (length (drop W x)) + int (OriginalSize pv) - 1) / r
             / of_nat (FilterCount pv)) * r" .
      then show ?thesis using r by (rule mult_right_less_imp_less [OF _ order_less_imp_le])
    qed
    have body': "Resample_body (drop W x) pv r (s' + of_nat k) = Inr (second ! k)"
      if k: "k < length out2" for k
    proof -
      define y where "y = (s' + of_nat k) * r"
      have y_eq: "y + of_int (int W) = (n + of_nat k) * r"
        using s'r by (simp add: y_def algebra_simps)
      have "co \<le> y"
      proof -
        have "0 \<le> frac fi + of_nat k * r" using r by simp
        moreover have "y = frac fi + co + of_nat k * r"
          unfolding y_def distrib_right s'r0 ..
        ultimately show ?thesis by simp
      qed
      then have "\<lfloor>co\<rfloor> \<le> \<lfloor>y\<rfloor>" by (rule floor_mono)
      then have fl: "int (PhaseSize pv) - 1 \<le> \<lfloor>y\<rfloor>"
        unfolding PhaseSize_floor [OF P F] co_def .
      have "Resample_body (drop W x) pv r (s' + of_nat k) = Resample_at (drop W x) pv y"
        by (simp add: Resample_body_def ChangeSampleRate_to_input y_def)
      also have "\<dots> = Resample_at x pv (y + of_int (int W))"
        by (rule Resample_at_drop [OF P W_le fl])
      also have "\<dots> = Resample_body x pv r (n + of_nat k)"
        unfolding Resample_body_def ChangeSampleRate_to_input y_eq by simp
      also have "\<dots> = Inr (second ! k)" using loop k by (simp add: Resample_loop_iff)
      finally show ?thesis .
    qed
    have len2: "length second = length out2" using loop by (simp add: Resample_loop_iff)
    have loop': "Resample_loop out2 (drop W x) pv r s' = Inr (second, s' + of_nat (length out2))"
      using body' len2 by (simp add: Resample_loop_iff)
    obtain c2 where c2: "Continuation (s' + of_nat (length out2)) (OriginalSize pv) (FilterCount pv) r = Inr c2"
      using cont by blast
    have "Resample out2 (drop W x) pv r s' = Inr (second, c2)"
      unfolding Resample_success ResamplingLength_eq [OF rn P]
      using r s'0 P pre' loop' c2 by simp
    then show ?thesis by (auto simp: cW)
  qed
qed

lemma Resample_chained:
  fixes x :: "'a::field list"
  assumes F: "1 \<le> OriginalSize pv"
    and full: "Resample (out1 @ out2) x pv r s = Inr (whole, c_whole)"
  shows "\<exists>first c second c2.
           Resample out1 x pv r s = Inr (first, c) \<and>
           Resample out2 (drop (firstInputSample c) x) pv r (startPoint c) = Inr (second, c2) \<and>
           first @ second = whole"
proof -
  define n where "n = s + of_nat (length out1)"
  from full obtain m where
    r0: "0 \<le> r" and s0: "0 \<le> s" and P: "0 < FilterCount pv" and
    m: "ResamplingLength (length x) (OriginalSize pv) (FilterCount pv) r = Inr m" and
    lt: "s + of_nat (length (out1 @ out2)) < m" and
    loop: "Resample_loop (out1 @ out2) x pv r s = Inr (whole, s + of_nat (length (out1 @ out2)))"
    unfolding Resample_success by blast
  have rn: "r \<noteq> 0"
    using m by (auto simp: ResamplingLength_def divide_Rational_def Let_def)
  then have r: "0 < r" using r0 by simp
  have m_eq: "m = of_int (int (FilterCount pv) * int (length x) + int (OriginalSize pv) - 1) / r
          / of_nat (FilterCount pv)"
    using m unfolding ResamplingLength_eq [OF rn P] by simp
  have loop1: "Resample_loop out1 x pv r s = Inr (take (length out1) whole, s + of_nat (length out1))"
    and loop2: "Resample_loop out2 x pv r n =
        Inr (drop (length out1) whole, n + of_nat (length out2))"
    using Resample_loop_append [OF loop] by (simp_all add: n_def)
  obtain c where c: "Continuation n (OriginalSize pv) (FilterCount pv) r = Inr c"
    unfolding Continuation_eq [OF rn P] by simp
  have lt1: "s + of_nat (length out1) < m" using lt by simp
  have call1: "Resample out1 x pv r s = Inr (take (length out1) whole, c)"
    unfolding Resample_success using r0 s0 P m lt1 loop1 c by (simp add: n_def)
  have n0: "0 \<le> n" using s0 by (simp add: n_def)
  have pre: "n + of_nat (length out2) <
        of_int (int (FilterCount pv) * int (length x) + int (OriginalSize pv) - 1) / r
          / of_nat (FilterCount pv)"
    using lt unfolding m_eq by (simp add: n_def add.assoc)
  from Resample_second_call [OF P F r n0 pre loop2 c] obtain c2 where
    call2: "Resample out2 (drop (firstInputSample c) x) pv r (startPoint c) =
              Inr (drop (length out1) whole, c2)"
    by blast
  show ?thesis using call1 call2 append_take_drop_id [of "length out1" whole] by blast
qed

lemma phase_empty_filter:
  assumes "OriginalSize pv = 0"
  shows "phase pv i = []"
proof -
  have "(FilterCount pv - 1) div FilterCount pv = 0" by (cases "FilterCount pv") simp_all
  then have "length (phase pv i) = 0" using assms by (simp add: length_phase)
  then show ?thesis by simp
qed

lemma DotProductSample_empty_filter:
  fixes x :: "'a::semiring_0 list"
  assumes "DotProductSample x [] i = Inr v"
  shows "v = 0"
  using assms
  by (auto simp: DotProductSample_def Let_def SubSignal_def DotProduct_def
        split: if_splits sum.splits)

lemma Resample_body_empty_filter:
  fixes x :: "'a::field list"
  assumes "OriginalSize pv = 0" and "Resample_body x pv r idx = Inr v"
  shows "v = 0"
proof -
  have z: "u = 0" if "DotProductSample x [] i = Inr u" for i u
    using that by (rule DotProductSample_empty_filter)
  show ?thesis
    using assms
    by (auto simp: Resample_body_def Resample_at_def phase_empty_filter
          split: sum.splits prod.splits dest!: z)
qed

lemma Resample_empty_filter:
  fixes x :: "'a::field list"
  assumes "OriginalSize pv = 0" and "Resample out x pv r s = Inr (ys, c)"
  shows "ys = replicate (length out) 0"
proof -
  have len: "length ys = length out"
    and bodies: "\<forall>k<length out. Resample_body x pv r (s + of_nat k) = Inr (ys ! k)"
    using assms(2) by (simp_all add: Resample_success Resample_loop_iff)
  have "ys ! k = 0" if "k < length out" for k
    using Resample_body_empty_filter [OF assms(1)] bodies that by blast
  then show ?thesis using len by (simp add: list_eq_iff_nth_eq)
qed

text \<open>
  Claim C1. Let one call of \<^verbatim>\<open>Resample\<close> fill an output of \<open>length out1 + length out2\<close>
  samples. Then the call that fills only the first \<open>length out1\<close> samples returns, with
  a continuation token \<open>c\<close>; every call for the remaining \<open>length out2\<close> samples whose
  input starts at \<open>firstInputSample c\<close> and whose start point is \<open>startPoint c\<close>
  produces exactly the remaining samples of the single call; and for a filter with at
  least one tap that second call does return.
\<close>

theorem Resample_streaming:
  fixes x :: "'a::field list"
  assumes "Resample (out1 @ out2) x pv r s = Inr (whole, c_whole)"
  shows "\<exists>first c.
           Resample out1 x pv r s = Inr (first, c) \<and>
           (\<forall>second c2.
              Resample out2 (drop (firstInputSample c) x) pv r (startPoint c) = Inr (second, c2)
                \<longrightarrow> first @ second = whole) \<and>
           (1 \<le> OriginalSize pv \<longrightarrow>
              (\<exists>second c2.
                 Resample out2 (drop (firstInputSample c) x) pv r (startPoint c) = Inr (second, c2)))"
proof (cases "1 \<le> OriginalSize pv")
  case True
  from Resample_chained [OF True assms] obtain first c second c2 where
    a: "Resample out1 x pv r s = Inr (first, c)" and
    b: "Resample out2 (drop (firstInputSample c) x) pv r (startPoint c) = Inr (second, c2)" and
    e: "first @ second = whole"
    by blast
  show ?thesis using a b e by auto
next
  case False
  then have F0: "OriginalSize pv = 0" by simp
  have loop: "Resample_loop (out1 @ out2) x pv r s = Inr (whole, s + of_nat (length (out1 @ out2)))"
    and pre: "0 \<le> r" "0 \<le> s" "0 < FilterCount pv"
    and m: "\<exists>m. ResamplingLength (length x) (OriginalSize pv) (FilterCount pv) r = Inr m \<and>
              s + of_nat (length (out1 @ out2)) < m"
    using assms unfolding Resample_success by blast+
  have rn: "r \<noteq> 0"
    using m by (auto simp: ResamplingLength_def divide_Rational_def Let_def)
  obtain c where c: "Continuation (s + of_nat (length out1)) (OriginalSize pv) (FilterCount pv) r = Inr c"
    unfolding Continuation_eq [OF rn pre(3)] by simp
  have m1: "\<exists>m. ResamplingLength (length x) (OriginalSize pv) (FilterCount pv) r = Inr m \<and>
              s + of_nat (length out1) < m"
    using m by auto
  have call1: "Resample out1 x pv r s = Inr (take (length out1) whole, c)"
    unfolding Resample_success
    using pre m1 Resample_loop_append(1) [OF loop] c by simp
  have w: "whole = replicate (length out1 + length out2) 0"
    using Resample_empty_filter [OF F0 assms] by simp
  have "take (length out1) whole @ second = whole"
    if "Resample out2 (drop (firstInputSample c) x) pv r (startPoint c) = Inr (second, c2)"
    for second c2
    using Resample_empty_filter [OF F0 that] w by (simp add: replicate_add)
  then show ?thesis using call1 False by auto
qed

theorem Resample_streaming_witness:
  "Resample [0, 0, 0, 0, 0] [10, 20, 30, 40, 50, 60 :: rat]
      \<lparr>taps = [1, 2, 3, 2, 1], numFilters = 2\<rparr> (2 / 3) (1 / 7) =
     Inr ([250 / 21, 250 / 7, 410 / 7, 100, 2650 / 21],
          \<lparr>firstInputSample = 1, startPoint = 51 / 14\<rparr>) \<and>
   Resample [0, 0, 0] (drop 1 [10, 20, 30, 40, 50, 60 :: rat])
      \<lparr>taps = [1, 2, 3, 2, 1], numFilters = 2\<rparr> (2 / 3) (51 / 14) =
     Inr ([990 / 7, 4120 / 21, 650 / 3], \<lparr>firstInputSample = 2, startPoint = 51 / 14\<rparr>) \<and>
   Resample ([0, 0, 0, 0, 0] @ [0, 0, 0]) [10, 20, 30, 40, 50, 60 :: rat]
      \<lparr>taps = [1, 2, 3, 2, 1], numFilters = 2\<rparr> (2 / 3) (1 / 7) =
     Inr ([250 / 21, 250 / 7, 410 / 7, 100, 2650 / 21] @ [990 / 7, 4120 / 21, 650 / 3],
          \<lparr>firstInputSample = 3, startPoint = 51 / 14\<rparr>)"
proof -
  let ?pv = "\<lparr>taps = [1, 2, 3, 2, 1 :: rat], numFilters = 2\<rparr>"
  let ?x = "[10, 20, 30, 40, 50, 60 :: rat]"
  have h1: "1 \<le> OriginalSize ?pv" by (simp add: OriginalSize_def)
  have h2: "Resample ([0, 0, 0, 0, 0] @ [0, 0, 0]) ?x ?pv (2 / 3) (1 / 7) =
     Inr ([250 / 21, 250 / 7, 410 / 7, 100, 2650 / 21, 990 / 7, 4120 / 21, 650 / 3],
          \<lparr>firstInputSample = 3, startPoint = 51 / 14\<rparr>)"
    by code_simp
  from Resample_streaming [OF h2] h1 obtain first c second c2 where
    a: "Resample [0, 0, 0, 0, 0] ?x ?pv (2 / 3) (1 / 7) = Inr (first, c)" and
    b: "Resample [0, 0, 0] (drop (firstInputSample c) ?x) ?pv (2 / 3) (startPoint c) = Inr (second, c2)"
    by blast
  have a': "Resample [0, 0, 0, 0, 0] ?x ?pv (2 / 3) (1 / 7) =
     Inr ([250 / 21, 250 / 7, 410 / 7, 100, 2650 / 21],
          \<lparr>firstInputSample = 1, startPoint = 51 / 14\<rparr>)"
    by code_simp
  have "c = \<lparr>firstInputSample = 1, startPoint = 51 / 14\<rparr>" using a a' by simp
  then have c: "firstInputSample c = 1" "startPoint c = 51 / 14" by simp_all
  have b': "Resample [0, 0, 0] (drop 1 ?x) ?pv (2 / 3) (51 / 14) =
     Inr ([990 / 7, 4120 / 21, 650 / 3], \<lparr>firstInputSample = 2, startPoint = 51 / 14\<rparr>)"
    by code_simp
  show ?thesis using a' b' h2 b c by simp
qed

end
